theory Spec2Isabelle
  imports Main "HOL-Library.Multiset" "HOL-Library.Sublist" "HOL-Library.AList"
begin

section \<open>Data model (src/app/main.py, lines 6--18)\<close>

text \<open>
  The two dataclasses of the program. Python's \<open>id\<close> and \<open>name\<close> fields are called
  \<open>team_id\<close>, \<open>team_name\<close> and \<open>league_name\<close> here: \<open>id\<close> is the identity function of
  HOL, and two records of one theory cannot share the field \<open>name\<close>. Python integers are
  unbounded, hence \<open>int\<close>. Dataclass equality compares all fields, as record equality does.
\<close>

record team =
  team_id :: int
  team_name :: string
  region :: string

record league =
  league_name :: string
  teams :: "team list"
  matches :: "(team \<times> team) list"

text \<open>
  The only exception the modelled functions can raise is the \<open>KeyError\<close> of a dictionary
  lookup. A result is \<open>Inl\<close> of the error or \<open>Inr\<close> of the returned value.
\<close>

datatype py_error = KeyError

text \<open>
  A Python \<open>dict\<close> from team ids to counts, as an association list in insertion order.
  \<open>AList.update\<close> overwrites the value of a key that is present in place and appends a
  new key at the end, which is what assignment to \<open>d[k]\<close> does.
\<close>

type_synonym counts = "(int \<times> int) list"

definition getitem :: "counts \<Rightarrow> int \<Rightarrow> py_error + int" where
  "getitem d k = (case map_of d k of None \<Rightarrow> Inl KeyError | Some v \<Rightarrow> Inr v)"

text \<open>\<open>d[k] += 1\<close>: reads \<open>d[k]\<close> (raising \<open>KeyError\<close> when absent), then stores.\<close>

definition incr_item :: "counts \<Rightarrow> int \<Rightarrow> py_error + counts" where
  "incr_item d k =
     (case getitem d k of Inl e \<Rightarrow> Inl e | Inr v \<Rightarrow> Inr (AList.update k (v + 1) d))"

section \<open>Match Scheduler (\<open>generate_matches_for_league\<close>, lines 75--121)\<close>

text \<open>
  \<open>tuple(sorted((a, b), key=lambda t: t.id))\<close>: Python's sort is stable, so the pair is
  swapped only when the second id is strictly smaller.
\<close>

definition sorted_pair :: "team \<Rightarrow> team \<Rightarrow> team \<times> team" where
  "sorted_pair a b = (if team_id a \<le> team_id b then (a, b) else (b, a))"

text \<open>
  Lines 80--84: the nested index loops \<open>for i in range(len(teams))\<close>,
  \<open>for j in range(i + 1, len(teams))\<close>, appending the canonical pair when the regions
  differ.
\<close>

definition possible_pairs :: "team list \<Rightarrow> (team \<times> team) list" where
  "possible_pairs ts =
     concat (map (\<lambda>i.
       concat (map (\<lambda>j.
         if region (ts ! i) \<noteq> region (ts ! j) then [sorted_pair (ts ! i) (ts ! j)] else [])
         [i + 1 ..< length ts]))
       [0 ..< length ts])"

text \<open>
  Line 95: \<open>all(count == num_matches_per_team for count in match_counts.values())\<close>.
\<close>

definition goal_test :: "int \<Rightarrow> counts \<Rightarrow> bool" where
  "goal_test n cs = list_all (\<lambda>kv. snd kv = n) cs"

text \<open>
  Lines 89--118, the closure \<open>_find_matches_recursive\<close>. The closed-over variables
  \<open>possible_pairs\<close> and \<open>num_matches_per_team\<close> are the parameters \<open>ps\<close> and \<open>n\<close>; the
  closed-over mutable object \<open>league\<close> is threaded through as state \<open>lg\<close> and returned
  with the boolean result. The \<open>and\<close> of line 105 is short-circuit: the second lookup
  happens only when the first comparison holds. \<open>new_counts\<close> is a copy, \<open>matches + [...]\<close>
  a new list, so the exclude branch of line 115 sees the caller's \<open>matches\<close> and
  \<open>match_counts\<close>, and the league as the include branch left it.
\<close>

function find_matches_recursive ::
  "(team \<times> team) list \<Rightarrow> int \<Rightarrow> league \<Rightarrow> (team \<times> team) list \<Rightarrow> counts \<Rightarrow> nat
     \<Rightarrow> py_error + (bool \<times> league)" where
  "find_matches_recursive ps n lg ms cs pair_idx =
     (if goal_test n cs then Inr (True, lg\<lparr>matches := ms\<rparr>)
      else if pair_idx \<ge> length ps then Inr (False, lg)
      else
        let team1 = fst (ps ! pair_idx); team2 = snd (ps ! pair_idx) in
        case getitem cs (team_id team1) of
          Inl e \<Rightarrow> Inl e
        | Inr c1 \<Rightarrow>
           (case (if c1 < n
                  then (case getitem cs (team_id team2) of
                          Inl e \<Rightarrow> Inl e
                        | Inr c2 \<Rightarrow> Inr (c2 < n))
                  else Inr False) of
              Inl e \<Rightarrow> Inl e
            | Inr guard \<Rightarrow>
               (case (if guard
                      then (case incr_item cs (team_id team1) of
                              Inl e \<Rightarrow> Inl e
                            | Inr cs1 \<Rightarrow>
                               (case incr_item cs1 (team_id team2) of
                                  Inl e \<Rightarrow> Inl e
                                | Inr cs2 \<Rightarrow>
                                   find_matches_recursive ps n lg (ms @ [(team1, team2)]) cs2
                                     (pair_idx + 1)))
                      else Inr (False, lg)) of
                  Inl e \<Rightarrow> Inl e
                | Inr (found, lg1) \<Rightarrow>
                   if found then Inr (True, lg1)
                   else find_matches_recursive ps n lg1 ms cs (pair_idx + 1))))"
  by pat_completeness auto
termination
  by (relation "measure (\<lambda>(ps, n, lg, ms, cs, pair_idx). length ps - pair_idx)") auto

text \<open>
  Line 120: \<open>{team.id: 0 for team in teams}\<close>. A repeated id keeps its first position.
\<close>

definition initial_match_counts :: "team list \<Rightarrow> counts" where
  "initial_match_counts ts = foldl (\<lambda>d t. AList.update (team_id t) 0 d) [] ts"

text \<open>
  \<open>generate_matches_for_league\<close>. \<open>random.shuffle\<close> is the parameter \<open>shuffle\<close>; what the
  library promises of it, that its result is a permutation of its argument, is a
  hypothesis of the theorems that need it. The function returns the boolean of the
  source together with the league as the call leaves it.
\<close>

definition generate_matches_for_league ::
  "((team \<times> team) list \<Rightarrow> (team \<times> team) list) \<Rightarrow> league \<Rightarrow> int
     \<Rightarrow> py_error + (bool \<times> league)" where
  "generate_matches_for_league shuffle lg num_matches_per_team =
     find_matches_recursive (shuffle (possible_pairs (teams lg))) num_matches_per_team lg []
       (initial_match_counts (teams lg)) 0"

section \<open>League Partitioner (\<open>divide_into_leagues\<close>, lines 40--73)\<close>

text \<open>
  Line 45 names league \<open>i\<close> by the katakana word for league (U+30EA U+30FC U+30B0, here
  as its UTF-8 bytes) followed by \<open>i + 1\<close> in decimal.
\<close>

fun str_nat :: "nat \<Rightarrow> string" where
  "str_nat n =
     (if n < 10 then [char_of (48 + n)] else str_nat (n div 10) @ [char_of (48 + n mod 10)])"

definition new_league :: "nat \<Rightarrow> league" where
  "new_league i =
     \<lparr>league_name =
        [CHR 0xE3, CHR 0x83, CHR 0xAA, CHR 0xE3, CHR 0x83, CHR 0xBC, CHR 0xE3, CHR 0x82, CHR 0xB0]
        @ str_nat (i + 1),
      teams = [], matches = []\<rparr>"

text \<open>Lines 63, 67, 68: \<open>sum(1 for t in lg.teams if t.region == team.region)\<close>.\<close>

definition same_region_count :: "league \<Rightarrow> team \<Rightarrow> nat" where
  "same_region_count lg t = length (filter (\<lambda>u. region u = region t) (teams lg))"

text \<open>
  League objects are mutated in place through references held in \<open>available_leagues\<close>,
  \<open>best_leagues\<close> and \<open>best_options\<close>; a reference is modelled by the index of the
  league in \<open>leagues\<close>. Lines 50--53, with \<open>len(leagues) = len(league_sizes)\<close> throughout
  the loop, so that \<open>league_sizes[i]\<close> is in range:
\<close>

definition available_leagues :: "int list \<Rightarrow> league list \<Rightarrow> nat list" where
  "available_leagues league_sizes lgs =
     filter (\<lambda>i. int (length (teams (lgs ! i))) < league_sizes ! i) [0 ..< length lgs]"

text \<open>Lines 61--64: \<open>sorted\<close> is stable, and so is \<open>sort_key\<close>.\<close>

definition best_leagues :: "league list \<Rightarrow> team \<Rightarrow> nat list \<Rightarrow> nat list" where
  "best_leagues lgs t avail = sort_key (\<lambda>i. same_region_count (lgs ! i) t) avail"

text \<open>
  Lines 67--68. \<open>best_leagues[0]\<close> is read only after line 55 has found
  \<open>available_leagues\<close> non-empty, so that \<open>hd\<close> is applied to a non-empty list.
\<close>

definition best_options :: "league list \<Rightarrow> team \<Rightarrow> nat list \<Rightarrow> nat list" where
  "best_options lgs t best =
     (let min_region_count = same_region_count (lgs ! hd best) t
      in filter (\<lambda>i. same_region_count (lgs ! i) t = min_region_count) best)"

text \<open>
  Lines 50--70: the league that receives \<open>t\<close>, or \<open>None\<close> for the \<open>return None\<close> of
  line 58. \<open>random.choice\<close> draws a number \<open>r\<close> and returns the element at index \<open>r\<close>
  reduced below the length of the sequence; every element can be chosen.
\<close>

definition choose_league :: "nat \<Rightarrow> int list \<Rightarrow> league list \<Rightarrow> team \<Rightarrow> nat option" where
  "choose_league r league_sizes lgs t =
     (let avail = available_leagues league_sizes lgs in
      if avail = [] then None
      else
        let opts = best_options lgs t (best_leagues lgs t avail)
        in Some (opts ! (r mod length opts)))"

text \<open>Line 71: \<open>chosen_league.teams.append(team)\<close>.\<close>

definition append_team :: "league list \<Rightarrow> nat \<Rightarrow> team \<Rightarrow> league list" where
  "append_team lgs i t = lgs[i := (lgs ! i)\<lparr>teams := teams (lgs ! i) @ [t]\<rparr>]"

definition place_team :: "nat \<Rightarrow> int list \<Rightarrow> league list \<Rightarrow> team \<Rightarrow> league list option" where
  "place_team r league_sizes lgs t =
     (case choose_league r league_sizes lgs t of
        None \<Rightarrow> None
      | Some i \<Rightarrow> Some (append_team lgs i t))"

text \<open>
  The loop of line 48 over the shuffled teams. \<open>rnd k\<close> is the number drawn by the
  \<open>random.choice\<close> of the \<open>k\<close>-th iteration.
\<close>

fun place_teams ::
  "(nat \<Rightarrow> nat) \<Rightarrow> nat \<Rightarrow> int list \<Rightarrow> league list \<Rightarrow> team list \<Rightarrow> league list option" where
  "place_teams rnd k league_sizes lgs [] = Some lgs"
| "place_teams rnd k league_sizes lgs (t # ts) =
     (case place_team (rnd k) league_sizes lgs t of
        None \<Rightarrow> None
      | Some lgs' \<Rightarrow> place_teams rnd (k + 1) league_sizes lgs' ts)"

text \<open>
  \<open>divide_into_leagues\<close>. \<open>random.sample(teams, len(teams))\<close> is the parameter \<open>sample\<close>,
  a permutation of its argument by the library's contract. The message printed before
  line 58 is not modelled.
\<close>

definition divide_into_leagues ::
  "(team list \<Rightarrow> team list) \<Rightarrow> (nat \<Rightarrow> nat) \<Rightarrow> team list \<Rightarrow> int list \<Rightarrow> league list option" where
  "divide_into_leagues sample rnd ts league_sizes =
     place_teams rnd 0 league_sizes (map new_league [0 ..< length league_sizes]) (sample ts)"

section \<open>Notions used to state the properties\<close>

text \<open>The number of matches of \<open>ms\<close> that team \<open>t\<close> takes part in.\<close>

definition appearances :: "team \<Rightarrow> (team \<times> team) list \<Rightarrow> nat" where
  "appearances t ms = length (filter (\<lambda>m. fst m = t \<or> snd m = t) ms)"

text \<open>A match as an unordered pair of teams.\<close>

definition unordered :: "team \<times> team \<Rightarrow> team set" where
  "unordered m = {fst m, snd m}"

text \<open>
  The candidate list by recursion on the team list: the pairs of the first team with
  each later team, then the pairs among the later teams. It is shown below to be the
  list that the index loops of \<open>possible_pairs\<close> build.
\<close>

fun pairs_from :: "team list \<Rightarrow> (team \<times> team) list" where
  "pairs_from [] = []"
| "pairs_from (t # ts) =
     map (sorted_pair t) (filter (\<lambda>u. region t \<noteq> region u) ts) @ pairs_from ts"

text \<open>
  The invariant of the search: the count stored under the id of each team of the league
  is the number of committed matches the team takes part in.
\<close>

definition counts_match :: "team list \<Rightarrow> (team \<times> team) list \<Rightarrow> counts \<Rightarrow> bool" where
  "counts_match ts ms cs \<longleftrightarrow>
     (\<forall>t\<in>set ts. map_of cs (team_id t) = Some (int (appearances t ms)))"

text \<open>
  The search once more, with the depth of the call stack made explicit: \<open>fuel\<close> is the
  number of nested calls still allowed, each call passes one less to the calls it makes,
  and the result is \<open>None\<close> when a call is made with none left. The body is that of
  \<open>find_matches_recursive\<close>.
\<close>

fun find_matches_fuel ::
  "nat \<Rightarrow> (team \<times> team) list \<Rightarrow> int \<Rightarrow> league \<Rightarrow> (team \<times> team) list \<Rightarrow> counts \<Rightarrow> nat
     \<Rightarrow> (py_error + (bool \<times> league)) option" where
  "find_matches_fuel 0 ps n lg ms cs pair_idx = None"
| "find_matches_fuel (Suc fuel) ps n lg ms cs pair_idx =
     (if goal_test n cs then Some (Inr (True, lg\<lparr>matches := ms\<rparr>))
      else if pair_idx \<ge> length ps then Some (Inr (False, lg))
      else
        let team1 = fst (ps ! pair_idx); team2 = snd (ps ! pair_idx) in
        case getitem cs (team_id team1) of
          Inl e \<Rightarrow> Some (Inl e)
        | Inr c1 \<Rightarrow>
           (case (if c1 < n
                  then (case getitem cs (team_id team2) of
                          Inl e \<Rightarrow> Inl e
                        | Inr c2 \<Rightarrow> Inr (c2 < n))
                  else Inr False) of
              Inl e \<Rightarrow> Some (Inl e)
            | Inr guard \<Rightarrow>
               (case (if guard
                      then (case incr_item cs (team_id team1) of
                              Inl e \<Rightarrow> Some (Inl e)
                            | Inr cs1 \<Rightarrow>
                               (case incr_item cs1 (team_id team2) of
                                  Inl e \<Rightarrow> Some (Inl e)
                                | Inr cs2 \<Rightarrow>
                                   find_matches_fuel fuel ps n lg (ms @ [(team1, team2)]) cs2
                                     (pair_idx + 1)))
                      else Some (Inr (False, lg))) of
                  None \<Rightarrow> None
                | Some (Inl e) \<Rightarrow> Some (Inl e)
                | Some (Inr (found, lg1)) \<Rightarrow>
                   if found then Some (Inr (True, lg1))
                   else find_matches_fuel fuel ps n lg1 ms cs (pair_idx + 1))))"

text \<open>The number of teams of each league, in league order.\<close>

definition league_lengths :: "league list \<Rightarrow> int list" where
  "league_lengths lgs = map (\<lambda>lg. int (length (teams lg))) lgs"

section \<open>Concrete teams and leagues for the evaluations\<close>

definition team_a1 :: team where
  "team_a1 = \<lparr>team_id = 1, team_name = ''a1'', region = ''A''\<rparr>"

definition team_a2 :: team where
  "team_a2 = \<lparr>team_id = 2, team_name = ''a2'', region = ''A''\<rparr>"

definition team_b3 :: team where
  "team_b3 = \<lparr>team_id = 3, team_name = ''b3'', region = ''B''\<rparr>"

definition team_c4 :: team where
  "team_c4 = \<lparr>team_id = 4, team_name = ''c4'', region = ''C''\<rparr>"

text \<open>A team of another region that repeats the id of \<open>team_a1\<close>.\<close>

definition team_d1 :: team where
  "team_d1 = \<lparr>team_id = 1, team_name = ''d1'', region = ''D''\<rparr>"

definition league_of :: "team list \<Rightarrow> league" where
  "league_of ts = \<lparr>league_name = ''L'', teams = ts, matches = []\<rparr>"

section \<open>The backtracking search\<close>

text \<open>
  The defining equation of the search calls itself on the right, so it is unfolded by
  hand, through the three lemmas that follow.
\<close>

declare find_matches_recursive.simps [simp del]

lemma find_goal:
  "goal_test n cs \<Longrightarrow> find_matches_recursive ps n lg ms cs i = Inr (True, lg\<lparr>matches := ms\<rparr>)"
  by (subst find_matches_recursive.simps) simp

lemma find_exhausted:
  "\<not> goal_test n cs \<Longrightarrow> length ps \<le> i \<Longrightarrow> find_matches_recursive ps n lg ms cs i = Inr (False, lg)"
  by (subst find_matches_recursive.simps) simp

lemma find_step:
  assumes "\<not> goal_test n cs" and "i < length ps"
  shows "find_matches_recursive ps n lg ms cs i =
     (case getitem cs (team_id (fst (ps ! i))) of
          Inl e \<Rightarrow> Inl e
        | Inr c1 \<Rightarrow>
           (case (if c1 < n
                  then (case getitem cs (team_id (snd (ps ! i))) of
                          Inl e \<Rightarrow> Inl e
                        | Inr c2 \<Rightarrow> Inr (c2 < n))
                  else Inr False) of
              Inl e \<Rightarrow> Inl e
            | Inr guard \<Rightarrow>
               (case (if guard
                      then (case incr_item cs (team_id (fst (ps ! i))) of
                              Inl e \<Rightarrow> Inl e
                            | Inr cs1 \<Rightarrow>
                               (case incr_item cs1 (team_id (snd (ps ! i))) of
                                  Inl e \<Rightarrow> Inl e
                                | Inr cs2 \<Rightarrow>
                                   find_matches_recursive ps n lg (ms @ [ps ! i]) cs2 (Suc i)))
                      else Inr (False, lg)) of
                  Inl e \<Rightarrow> Inl e
                | Inr (found, lg1) \<Rightarrow>
                   if found then Inr (True, lg1)
                   else find_matches_recursive ps n lg1 ms cs (Suc i))))"
  using assms
  by (subst find_matches_recursive.simps) (simp add: Let_def cong: sum.case_cong if_cong)

lemma find_failure_keeps_league:
  "find_matches_recursive ps n lg ms cs i = Inr (False, lg') \<Longrightarrow> lg' = lg"
proof (induction "length ps - i" arbitrary: i lg ms cs lg')
  case 0
  then have "length ps \<le> i" by simp
  with 0(2) show ?case
    by (cases "goal_test n cs") (simp_all add: find_goal find_exhausted)
next
  case (Suc k)
  have step: "k = length ps - Suc i" and lt: "i < length ps" using Suc.hyps(2) by simp_all
  note IH = Suc.hyps(1)[OF step]
  show ?case
  proof (cases "goal_test n cs")
    case True
    with Suc.prems show ?thesis by (simp add: find_goal)
  next
    case False
    from Suc.prems show ?thesis
      unfolding find_step[OF False lt]
      by (auto split: if_splits sum.splits prod.splits dest: IH)
  qed
qed

lemma shape_base:
  "\<exists>ms'. lg\<lparr>matches := ms\<rparr> = lg\<lparr>matches := ms @ ms'\<rparr> \<and> subseq ms' xs"
  by (rule exI[of _ "[]"]) simp

lemma find_success_shape:
  "find_matches_recursive ps n lg ms cs i = Inr (True, lg') \<Longrightarrow>
     \<exists>ms'. lg' = lg\<lparr>matches := ms @ ms'\<rparr> \<and> subseq ms' (drop i ps)"
proof (induction "length ps - i" arbitrary: i lg ms cs lg')
  case 0
  then have "length ps \<le> i" by simp
  with 0(2) show ?case
    by (cases "goal_test n cs") (auto simp add: find_goal find_exhausted shape_base)
next
  case (Suc k)
  have step: "k = length ps - Suc i" and lt: "i < length ps" using Suc.hyps(2) by simp_all
  note IH = Suc.hyps(1)[OF step]
  have dr: "drop i ps = ps ! i # drop (Suc i) ps" using lt by (simp add: Cons_nth_drop_Suc)
  show ?case
  proof (cases "goal_test n cs")
    case True
    with Suc.prems show ?thesis by (auto simp add: find_goal shape_base)
  next
    case False
    have skip: "\<exists>ms'. lg' = lg\<lparr>matches := ms @ ms'\<rparr> \<and> subseq ms' (drop i ps)"
      if "find_matches_recursive ps n lg ms cs (Suc i) = Inr (True, lg')"
      using IH[OF that] dr by auto
    have incl: "\<exists>ms'. lg' = lg\<lparr>matches := ms @ ms'\<rparr> \<and> subseq ms' (drop i ps)"
      if "find_matches_recursive ps n lg (ms @ [ps ! i]) cs2 (Suc i) = Inr (True, lg')" for cs2
    proof -
      from IH[OF that] obtain ms' where
        "lg' = lg\<lparr>matches := (ms @ [ps ! i]) @ ms'\<rparr>" "subseq ms' (drop (Suc i) ps)" by blast
      then have "lg' = lg\<lparr>matches := ms @ (ps ! i # ms')\<rparr> \<and> subseq (ps ! i # ms') (drop i ps)"
        using dr by simp
      then show ?thesis by blast
    qed
    from Suc.prems show ?thesis
      unfolding find_step[OF False lt]
      by (auto split: if_splits sum.splits prod.splits
          dest!: find_failure_keeps_league intro: skip incl)
  qed
qed

section \<open>The candidate list\<close>

lemma concat_map_if:
  "concat (map (\<lambda>u. if P u then [f u] else []) xs) = map f (filter P xs)"
  by (induction xs) simp_all

lemma concat_map_nth:
  "concat (map (\<lambda>j. g (xs ! j)) [0 ..< length xs]) = concat (map g xs)"
proof -
  have "map (\<lambda>j. g (xs ! j)) [0 ..< length xs] = map g (map ((!) xs) [0 ..< length xs])"
    by simp
  then show ?thesis by (simp only: map_nth)
qed

lemma possible_pairs_Cons:
  "possible_pairs (t # ts) =
     map (sorted_pair t) (filter (\<lambda>u. region t \<noteq> region u) ts) @ possible_pairs ts"
proof -
  let ?n = "length ts"
  let ?G = "\<lambda>xs i j. if region (xs ! i) \<noteq> region (xs ! j) then [sorted_pair (xs ! i) (xs ! j)] else []"
  have upt0: "[0 ..< Suc ?n] = 0 # map Suc [0 ..< ?n]"
    by (simp add: upt_conv_Cons map_Suc_upt del: upt_Suc)
  have inner0: "concat (map (?G (t # ts) 0) [0 + 1 ..< Suc ?n])
      = map (sorted_pair t) (filter (\<lambda>u. region t \<noteq> region u) ts)"
  proof -
    have "[0 + 1 ..< Suc ?n] = map Suc [0 ..< ?n]" by (simp add: map_Suc_upt del: upt_Suc)
    then have "concat (map (?G (t # ts) 0) [0 + 1 ..< Suc ?n])
        = concat (map (\<lambda>j. if region t \<noteq> region (ts ! j) then [sorted_pair t (ts ! j)] else []) [0 ..< ?n])"
      by (simp add: comp_def del: upt_Suc cong: if_cong)
    also have "\<dots> = concat (map (\<lambda>u. if region t \<noteq> region u then [sorted_pair t u] else []) ts)"
      by (rule concat_map_nth)
    finally show ?thesis by (simp add: concat_map_if)
  qed
  have innerS: "concat (map (?G (t # ts) (Suc i)) [Suc i + 1 ..< Suc ?n])
      = concat (map (?G ts i) [i + 1 ..< ?n])" for i
  proof -
    have "[Suc i + 1 ..< Suc ?n] = map Suc [i + 1 ..< ?n]" by (simp add: map_Suc_upt del: upt_Suc)
    then show ?thesis by (simp add: comp_def del: upt_Suc cong: if_cong)
  qed
  show ?thesis
    unfolding possible_pairs_def
    apply (simp only: length_Cons upt0 list.map concat.simps inner0 map_map comp_def innerS)
    done
qed

lemma possible_pairs_eq: "possible_pairs ts = pairs_from ts"
  by (induction ts) (simp_all add: possible_pairs_Cons, simp add: possible_pairs_def)


lemma pairs_from_mem:
  "p \<in> set (pairs_from ts) \<Longrightarrow>
     fst p \<in> set ts \<and> snd p \<in> set ts \<and> region (fst p) \<noteq> region (snd p)
     \<and> team_id (fst p) \<le> team_id (snd p)"
  by (induction ts) (auto simp: sorted_pair_def split: if_splits)

lemma pairs_from_strict:
  "distinct (map team_id ts) \<Longrightarrow> p \<in> set (pairs_from ts) \<Longrightarrow>
     team_id (fst p) < team_id (snd p)"
  by (induction ts) (auto simp: sorted_pair_def split: if_splits)

lemma unordered_sorted_pair: "unordered (sorted_pair a b) = {a, b}"
  by (auto simp: unordered_def sorted_pair_def)

lemma unordered_pairs_subset:
  "p \<in> set (pairs_from ts) \<Longrightarrow> unordered p \<subseteq> set ts"
  using pairs_from_mem[of p ts] by (simp add: unordered_def)

lemma pairs_from_distinct:
  "distinct ts \<Longrightarrow> distinct (map unordered (pairs_from ts))"
proof (induction ts)
  case Nil
  then show ?case by simp
next
  case (Cons t ts)
  let ?A = "filter (\<lambda>u. region t \<noteq> region u) ts"
  have inj: "inj_on (\<lambda>u. {t, u}) (set ?A)"
    using Cons.prems by (auto simp: inj_on_def doubleton_eq_iff)
  have "distinct ?A" using Cons.prems by simp
  with inj have d1: "distinct (map (\<lambda>u. {t, u}) ?A)" by (simp add: distinct_map)
  have d2: "distinct (map unordered (pairs_from ts))" using Cons by simp
  have disj: "{t, u} \<noteq> unordered p" if "p \<in> set (pairs_from ts)" for u p
    using unordered_pairs_subset[OF that] Cons.prems by auto
  show ?case
    using d1 d2 disj by (auto simp: comp_def unordered_sorted_pair)
qed

lemma pairs_from_length: "length (pairs_from ts) \<le> length ts choose 2"
proof (induction ts)
  case Nil
  then show ?case by simp
next
  case (Cons t ts)
  have "length (filter (\<lambda>u. region t \<noteq> region u) ts) + length (pairs_from ts)
      \<le> length ts + (length ts choose 2)"
    by (rule add_mono[OF length_filter_le Cons.IH])
  moreover have "Suc (length ts) choose 2 = length ts + (length ts choose 2)"
    by (simp add: numeral_2_eq_2)
  ultimately show ?case by simp
qed

lemma map_of_foldl_update:
  "map_of (foldl (\<lambda>d t. AList.update (team_id t) (0::int) d) d0 ts) k =
     (if k \<in> team_id ` set ts then Some 0 else map_of d0 k)"
  by (induction ts arbitrary: d0) (auto simp: update_conv')

lemma distinct_foldl_update:
  "distinct (map fst d0) \<Longrightarrow>
     distinct (map fst (foldl (\<lambda>d t. AList.update (team_id t) (0::int) d) d0 ts))"
  by (induction ts arbitrary: d0) (simp_all add: distinct_update)

lemma map_of_initial:
  "map_of (initial_match_counts ts) k = (if k \<in> team_id ` set ts then Some 0 else None)"
  by (simp add: initial_match_counts_def map_of_foldl_update)

lemma initial_values: "kv \<in> set (initial_match_counts ts) \<Longrightarrow> snd kv = 0"
proof -
  assume a: "kv \<in> set (initial_match_counts ts)"
  have "distinct (map fst (initial_match_counts ts))"
    by (simp add: initial_match_counts_def distinct_foldl_update)
  moreover from a have "(fst kv, snd kv) \<in> set (initial_match_counts ts)" by simp
  ultimately have "map_of (initial_match_counts ts) (fst kv) = Some (snd kv)"
    by (simp only: map_of_eq_Some_iff)
  then show ?thesis by (simp add: map_of_initial split: if_splits)
qed


lemma goal_test_initial_zero: "goal_test 0 (initial_match_counts ts)"
  by (simp add: goal_test_def list_all_iff initial_values)

section \<open>Results of the search and of the scheduler\<close>

lemma shuffled_set:
  "mset ps = mset (possible_pairs ts) \<Longrightarrow> set ps = set (pairs_from ts)"
  by (metis possible_pairs_eq set_mset_mset)

lemma subseq_set: "subseq xs ys \<Longrightarrow> set xs \<subseteq> set ys"
  by (induction rule: list_emb.induct) auto

lemma subseq_distinct: "subseq xs ys \<Longrightarrow> distinct ys \<Longrightarrow> distinct xs"
  by (induction rule: list_emb.induct) (auto dest: subseq_set)

lemma generate_success_shape:
  assumes "generate_matches_for_league shuffle lg n = Inr (True, lg')"
  shows "lg' = lg\<lparr>matches := matches lg'\<rparr> \<and> subseq (matches lg') (shuffle (possible_pairs (teams lg)))"
  using find_success_shape[OF assms[unfolded generate_matches_for_league_def]] by auto


text \<open>
  The \<open>KeyError\<close> branches of the model are never taken by the scheduler: every id that
  the search looks up belongs to a team of the league, and the initial counts have a key
  for each of them. So the scheduler always returns a boolean.
\<close>

lemma getitem_present:
  "k \<in> fst ` set cs \<Longrightarrow> \<exists>v. getitem cs k = Inr v"
  by (cases "map_of cs k") (simp_all add: getitem_def map_of_eq_None_iff)

lemma incr_item_present:
  assumes "k \<in> fst ` set cs"
  shows "\<exists>cs1. incr_item cs k = Inr cs1 \<and> fst ` set cs1 = fst ` set cs"
proof -
  from assms obtain v where v: "getitem cs k = Inr v" using getitem_present by blast
  have "map fst (AList.update k (v + 1) cs) = map fst cs"
    using assms by (simp add: update_keys)
  then have "set (map fst (AList.update k (v + 1) cs)) = set (map fst cs)" by simp
  then have "fst ` set (AList.update k (v + 1) cs) = fst ` set cs" by simp
  with v show ?thesis by (simp add: incr_item_def)
qed

lemma find_never_raises:
  assumes "\<forall>p\<in>set ps. team_id (fst p) \<in> fst ` set cs \<and> team_id (snd p) \<in> fst ` set cs"
  shows "\<exists>found lg'. find_matches_recursive ps n lg ms cs i = Inr (found, lg')"
  using assms
proof (induction "length ps - i" arbitrary: i lg ms cs)
  case 0
  then have "length ps \<le> i" by simp
  then show ?case by (cases "goal_test n cs") (auto simp: find_goal find_exhausted)
next
  case (Suc k)
  then have lt: "i < length ps" and step: "k = length ps - Suc i" by simp_all
  show ?case
  proof (cases "goal_test n cs")
    case True
    then show ?thesis by (auto simp: find_goal)
  next
    case False
    let ?k1 = "team_id (fst (ps ! i))" and ?k2 = "team_id (snd (ps ! i))"
    from Suc.prems lt have k1: "?k1 \<in> fst ` set cs" and k2: "?k2 \<in> fst ` set cs" by simp_all
    from getitem_present[OF k1] obtain c1 where c1: "getitem cs ?k1 = Inr c1" by blast
    from getitem_present[OF k2] obtain c2 where c2: "getitem cs ?k2 = Inr c2" by blast
    from incr_item_present[OF k1] obtain cs1 where
      cs1: "incr_item cs ?k1 = Inr cs1" "fst ` set cs1 = fst ` set cs" by blast
    from k2 cs1(2) have "?k2 \<in> fst ` set cs1" by simp
    from incr_item_present[OF this] obtain cs2 where
      cs2: "incr_item cs1 ?k2 = Inr cs2" "fst ` set cs2 = fst ` set cs1" by blast
    have keys2: "\<forall>p\<in>set ps. team_id (fst p) \<in> fst ` set cs2 \<and> team_id (snd p) \<in> fst ` set cs2"
      using Suc.prems cs1(2) cs2(2) by simp
    from Suc.hyps(1)[OF step keys2] obtain f1 l1 where
      incl: "find_matches_recursive ps n lg (ms @ [ps ! i]) cs2 (Suc i) = Inr (f1, l1)" by blast
    have skip: "\<exists>found lg'. find_matches_recursive ps n l ms cs (Suc i) = Inr (found, lg')" for l
      by (rule Suc.hyps(1)[OF step Suc.prems])
    from skip[of l1] obtain f2 l2 where
      s1: "find_matches_recursive ps n l1 ms cs (Suc i) = Inr (f2, l2)" by blast
    from skip[of lg] obtain f3 l3 where
      s2: "find_matches_recursive ps n lg ms cs (Suc i) = Inr (f3, l3)" by blast
    show ?thesis
      unfolding find_step[OF False lt]
      by (auto simp add: c1 c2 cs1(1) cs2(1) incl s1 s2)
  qed
qed

lemma scheduler_never_raises:
  assumes "mset (shuffle (possible_pairs (teams lg))) = mset (possible_pairs (teams lg))"
  shows "\<exists>found lg'. generate_matches_for_league shuffle lg n = Inr (found, lg')"
  unfolding generate_matches_for_league_def
proof (rule find_never_raises, rule ballI)
  fix p assume "p \<in> set (shuffle (possible_pairs (teams lg)))"
  then have "fst p \<in> set (teams lg)" "snd p \<in> set (teams lg)"
    using shuffled_set[OF assms] pairs_from_mem by blast+
  then have "map_of (initial_match_counts (teams lg)) (team_id (fst p)) = Some 0"
    "map_of (initial_match_counts (teams lg)) (team_id (snd p)) = Some 0"
    by (simp_all add: map_of_initial)
  then show "team_id (fst p) \<in> fst ` set (initial_match_counts (teams lg))
     \<and> team_id (snd p) \<in> fst ` set (initial_match_counts (teams lg))"
    by (metis domI dom_map_of_conv_image_fst)
qed

section \<open>The claims about the Match Scheduler\<close>

text \<open>
  C5. When the Match Scheduler returns failure, the league is exactly as it was before
  the call; in particular its \<open>matches\<close> field is unchanged. This holds for every
  league, every target and every behaviour of the shuffle.
\<close>

theorem scheduler_failure_leaves_league:
  "generate_matches_for_league shuffle lg n = Inr (False, lg') \<Longrightarrow> lg' = lg"
  unfolding generate_matches_for_league_def by (rule find_failure_keeps_league)

text \<open>
  A league of two teams of one region has no candidate pair; with target 1 the scheduler
  fails and the league is returned as it was.
\<close>

theorem scheduler_failure_leaves_league_witness:
  "generate_matches_for_league rev (league_of [team_a1, team_a2]) 1
     = Inr (False, league_of [team_a1, team_a2])
   \<and> league_of [team_a1, team_a2] = league_of [team_a1, team_a2]"
proof -
  have h: "generate_matches_for_league rev (league_of [team_a1, team_a2]) 1
     = Inr (False, league_of [team_a1, team_a2])"
    by code_simp
  from h scheduler_failure_leaves_league[OF h] show ?thesis by simp
qed

text \<open>
  C6. With \<open>matches_per_team = 0\<close> the Match Scheduler succeeds with an empty match
  list, for every league composition. The goal test holds at the first call on the
  all-zero counts, so the result does not depend on the candidate list at all: it is
  the same for every shuffle, and the search started at index 0 gives it for every
  candidate list \<open>ps\<close>.
\<close>

theorem scheduler_zero_matches:
  "generate_matches_for_league shuffle lg 0 = Inr (True, lg\<lparr>matches := []\<rparr>)
   \<and> find_matches_recursive ps 0 lg [] (initial_match_counts (teams lg)) 0
       = Inr (True, lg\<lparr>matches := []\<rparr>)"
  by (simp add: generate_matches_for_league_def find_goal goal_test_initial_zero)



text \<open>
  C2. Every match of a successful run of the Match Scheduler pairs two teams of
  different regions, because the committed matches all come from the candidate list,
  which holds cross-region pairs only.
\<close>

theorem scheduler_cross_region:
  assumes "mset (shuffle (possible_pairs (teams lg))) = mset (possible_pairs (teams lg))"
    and "generate_matches_for_league shuffle lg n = Inr (True, lg')"
  shows "(\<forall>m\<in>set (matches lg'). region (fst m) \<noteq> region (snd m))
     \<and> set (matches lg') \<subseteq> set (possible_pairs (teams lg))"
proof -
  from generate_success_shape[OF assms(2)]
  have "set (matches lg') \<subseteq> set (shuffle (possible_pairs (teams lg)))"
    by (auto dest: subseq_set)
  then have sub: "set (matches lg') \<subseteq> set (pairs_from (teams lg))"
    by (simp add: shuffled_set[OF assms(1)])
  then show ?thesis using pairs_from_mem by (auto simp: possible_pairs_eq)
qed

theorem scheduler_cross_region_witness:
  "mset (rev (possible_pairs (teams (league_of [team_a1, team_a2, team_b3, team_c4]))))
     = mset (possible_pairs (teams (league_of [team_a1, team_a2, team_b3, team_c4])))
   \<and> generate_matches_for_league rev (league_of [team_a1, team_a2, team_b3, team_c4]) 2
     = Inr (True, (league_of [team_a1, team_a2, team_b3, team_c4])
          \<lparr>matches := [(team_a2, team_c4), (team_a2, team_b3), (team_a1, team_c4),
             (team_a1, team_b3)]\<rparr>)
   \<and> region team_a2 \<noteq> region team_c4 \<and> region team_a2 \<noteq> region team_b3
   \<and> region team_a1 \<noteq> region team_c4 \<and> region team_a1 \<noteq> region team_b3"
proof -
  let ?lg = "league_of [team_a1, team_a2, team_b3, team_c4]"
  have h1: "mset (rev (possible_pairs (teams ?lg))) = mset (possible_pairs (teams ?lg))"
    by simp
  have h2: "generate_matches_for_league rev ?lg 2
     = Inr (True, ?lg\<lparr>matches := [(team_a2, team_c4), (team_a2, team_b3), (team_a1, team_c4),
             (team_a1, team_b3)]\<rparr>)"
    by code_simp
  from h1 h2 scheduler_cross_region[of rev ?lg 2, OF h1 h2] show ?thesis by simp
qed

section \<open>Counts, repeated pairs and termination of the search\<close>

lemma find_success_cases:
  assumes "\<not> goal_test n cs" and "i < length ps"
    and "find_matches_recursive ps n lg ms cs i = Inr (True, lg')"
  shows "(\<exists>cs1 cs2. incr_item cs (team_id (fst (ps ! i))) = Inr cs1
            \<and> incr_item cs1 (team_id (snd (ps ! i))) = Inr cs2
            \<and> find_matches_recursive ps n lg (ms @ [ps ! i]) cs2 (Suc i) = Inr (True, lg'))
         \<or> (\<exists>lg1. find_matches_recursive ps n lg1 ms cs (Suc i) = Inr (True, lg'))"
  using assms(3) unfolding find_step[OF assms(1,2)]
  by (auto split: if_splits sum.splits prod.splits)

lemma incr_itemD:
  "incr_item cs k = Inr cs1 \<Longrightarrow>
     \<exists>v. map_of cs k = Some v \<and> map_of cs1 = (map_of cs)(k \<mapsto> v + 1)"
  by (auto simp: incr_item_def getitem_def update_conv' split: option.splits sum.splits)

lemma appearances_snoc:
  "appearances t (ms @ [(t1, t2)]) = appearances t ms + (if t1 = t \<or> t2 = t then 1 else 0)"
  by (simp add: appearances_def)

lemma counts_match_step:
  assumes inj: "inj_on team_id (set ts)"
    and mem: "t1 \<in> set ts" "t2 \<in> set ts" and ne: "t1 \<noteq> t2"
    and cm: "counts_match ts ms cs"
    and i1: "incr_item cs (team_id t1) = Inr cs1"
    and i2: "incr_item cs1 (team_id t2) = Inr cs2"
  shows "counts_match ts (ms @ [(t1, t2)]) cs2"
proof -
  from inj mem ne have idne: "team_id t1 \<noteq> team_id t2" by (auto simp: inj_on_def)
  from incr_itemD[OF i1] obtain v1 where
    v1: "map_of cs (team_id t1) = Some v1" "map_of cs1 = (map_of cs)(team_id t1 \<mapsto> v1 + 1)"
    by blast
  from incr_itemD[OF i2] obtain v2 where
    v2: "map_of cs1 (team_id t2) = Some v2" "map_of cs2 = (map_of cs1)(team_id t2 \<mapsto> v2 + 1)"
    by blast
  from v1 cm mem have a1: "v1 = int (appearances t1 ms)" by (simp add: counts_match_def)
  from v2 v1 idne cm mem have a2: "v2 = int (appearances t2 ms)"
    by (simp add: counts_match_def)
  show ?thesis
    unfolding counts_match_def
  proof
    fix t assume t: "t \<in> set ts"
    have ids: "team_id t = team_id t1 \<longleftrightarrow> t = t1" "team_id t = team_id t2 \<longleftrightarrow> t = t2"
      using inj t mem by (auto simp: inj_on_def)
    from cm t have "map_of cs (team_id t) = Some (int (appearances t ms))"
      by (simp add: counts_match_def)
    then show "map_of cs2 (team_id t) = Some (int (appearances t (ms @ [(t1, t2)])))"
      using v1(2) v2(2) a1 a2 ids ne by (auto simp: appearances_snoc)
  qed
qed

lemma find_success_counts:
  assumes inj: "inj_on team_id (set ts)"
    and pairs: "\<forall>p\<in>set ps. fst p \<in> set ts \<and> snd p \<in> set ts \<and> fst p \<noteq> snd p"
  shows "counts_match ts ms cs \<Longrightarrow> find_matches_recursive ps n lg ms cs i = Inr (True, lg')
     \<Longrightarrow> \<forall>t\<in>set ts. int (appearances t (matches lg')) = n"
proof (induction "length ps - i" arbitrary: i lg ms cs)
  case 0
  then have le: "length ps \<le> i" by simp
  show ?case
  proof (cases "goal_test n cs")
    case True
    with 0(3) have lg': "matches lg' = ms" by (auto simp: find_goal)
    show ?thesis
    proof
      fix t assume "t \<in> set ts"
      with 0(2) have "(team_id t, int (appearances t ms)) \<in> set cs"
        by (auto simp: counts_match_def dest: map_of_SomeD)
      with True show "int (appearances t (matches lg')) = n"
        by (auto simp: goal_test_def list_all_iff lg')
    qed
  next
    case False
    with 0(3) le show ?thesis by (simp add: find_exhausted)
  qed
next
  case (Suc k)
  then have lt: "i < length ps" and step: "k = length ps - Suc i" by simp_all
  show ?case
  proof (cases "goal_test n cs")
    case True
    with Suc.prems(2) have lg': "matches lg' = ms" by (auto simp: find_goal)
    show ?thesis
    proof
      fix t assume "t \<in> set ts"
      with Suc.prems(1) have "(team_id t, int (appearances t ms)) \<in> set cs"
        by (auto simp: counts_match_def dest: map_of_SomeD)
      with True show "int (appearances t (matches lg')) = n"
        by (auto simp: goal_test_def list_all_iff lg')
    qed
  next
    case False
    from find_success_cases[OF False lt Suc.prems(2)] show ?thesis
    proof (elim disjE exE conjE)
      fix cs1 cs2
      assume i1: "incr_item cs (team_id (fst (ps ! i))) = Inr cs1"
        and i2: "incr_item cs1 (team_id (snd (ps ! i))) = Inr cs2"
        and r: "find_matches_recursive ps n lg (ms @ [ps ! i]) cs2 (Suc i) = Inr (True, lg')"
      from pairs lt have m: "fst (ps ! i) \<in> set ts" "snd (ps ! i) \<in> set ts"
        "fst (ps ! i) \<noteq> snd (ps ! i)" by simp_all
      have "counts_match ts (ms @ [(fst (ps ! i), snd (ps ! i))]) cs2"
        by (rule counts_match_step[OF inj m Suc.prems(1) i1 i2])
      then have "counts_match ts (ms @ [ps ! i]) cs2" by simp
      from Suc.hyps(1)[OF step this r] show ?thesis .
    next
      fix lg1
      assume r: "find_matches_recursive ps n lg1 ms cs (Suc i) = Inr (True, lg')"
      from Suc.hyps(1)[OF step Suc.prems(1) r] show ?thesis .
    qed
  qed
qed

lemma counts_match_initial: "counts_match ts [] (initial_match_counts ts)"
  by (simp add: counts_match_def map_of_initial appearances_def)

lemma find_fuel_enough:
  "length ps - i < fuel \<Longrightarrow>
     find_matches_fuel fuel ps n lg ms cs i = Some (find_matches_recursive ps n lg ms cs i)"
proof (induction fuel arbitrary: i lg ms cs)
  case 0
  then show ?case by simp
next
  case (Suc fuel)
  show ?case
  proof (cases "goal_test n cs \<or> length ps \<le> i")
    case True
    then show ?thesis by (auto simp: find_goal find_exhausted)
  next
    case False
    then have ng: "\<not> goal_test n cs" and lt: "i < length ps" by simp_all
    from Suc.prems lt have "length ps - Suc i < fuel" by simp
    note IH = Suc.IH[OF this]
    show ?thesis
      unfolding find_step[OF ng lt] using ng lt
      by (simp add: IH Let_def split: sum.splits prod.splits)
  qed
qed

text \<open>
  C1, as stated, fails for a league in which two teams share an id: the counts are
  keyed by id, so one match between \<open>team_a1\<close> and \<open>team_d1\<close> (both with id 1, of
  different regions) raises the single count twice. With target 2 the scheduler returns
  success with that one match, in which \<open>team_a1\<close> appears once, not twice.
\<close>

theorem scheduler_exact_counts_counterexample:
  "mset (rev (possible_pairs (teams (league_of [team_a1, team_d1]))))
     = mset (possible_pairs (teams (league_of [team_a1, team_d1])))
   \<and> generate_matches_for_league rev (league_of [team_a1, team_d1]) 2
     = Inr (True, (league_of [team_a1, team_d1])\<lparr>matches := [(team_a1, team_d1)]\<rparr>)
   \<and> team_a1 \<in> set (teams (league_of [team_a1, team_d1]))
   \<and> int (appearances team_a1 [(team_a1, team_d1)]) \<noteq> 2"
proof -
  have "generate_matches_for_league rev (league_of [team_a1, team_d1]) 2
     = Inr (True, (league_of [team_a1, team_d1])\<lparr>matches := [(team_a1, team_d1)]\<rparr>)"
    by code_simp
  moreover have "int (appearances team_a1 [(team_a1, team_d1)]) \<noteq> 2"
    by (simp add: appearances_def)
  ultimately show ?thesis by (simp add: league_of_def)
qed

text \<open>
  C1, amended. For every league whose teams have pairwise distinct ids and every
  \<open>matches_per_team\<close> (non-negative or not), if the Match Scheduler returns success then
  every team of the league appears in exactly \<open>matches_per_team\<close> of the matches stored
  in the league, whose teams are unchanged. The goal test comes first in the search:
  whenever it holds, the search returns success with the matches committed so far,
  whatever the candidate index, so also before the candidates are exhausted.
\<close>

theorem scheduler_exact_counts:
  assumes "distinct (map team_id (teams lg))"
    and "mset (shuffle (possible_pairs (teams lg))) = mset (possible_pairs (teams lg))"
    and "generate_matches_for_league shuffle lg n = Inr (True, lg')"
  shows "(\<forall>t\<in>set (teams lg). int (appearances t (matches lg')) = n)
     \<and> teams lg' = teams lg
     \<and> (goal_test n cs \<longrightarrow>
          find_matches_recursive ps n lg0 ms cs i = Inr (True, lg0\<lparr>matches := ms\<rparr>))"
proof -
  let ?ps = "shuffle (possible_pairs (teams lg))"
  from assms(1) have inj: "inj_on team_id (set (teams lg))" and d: "distinct (teams lg)"
    by (simp_all add: distinct_map)
  have pairs: "\<forall>p\<in>set ?ps. fst p \<in> set (teams lg) \<and> snd p \<in> set (teams lg) \<and> fst p \<noteq> snd p"
    using shuffled_set[OF assms(2)] pairs_from_mem by fastforce
  have "\<forall>t\<in>set (teams lg). int (appearances t (matches lg')) = n"
    by (rule find_success_counts[OF inj pairs counts_match_initial
          assms(3)[unfolded generate_matches_for_league_def]])
  moreover from generate_success_shape[OF assms(3)] have "teams lg' = teams lg"
    by (metis league.select_convs(2) league.surjective league.update_convs(3))
  ultimately show ?thesis by (simp add: find_goal)
qed

theorem scheduler_exact_counts_witness:
  "distinct (map team_id (teams (league_of [team_a1, team_b3, team_c4])))
   \<and> mset (rev (possible_pairs (teams (league_of [team_a1, team_b3, team_c4]))))
       = mset (possible_pairs (teams (league_of [team_a1, team_b3, team_c4])))
   \<and> generate_matches_for_league rev (league_of [team_a1, team_b3, team_c4]) 2
       = Inr (True, (league_of [team_a1, team_b3, team_c4])
            \<lparr>matches := [(team_b3, team_c4), (team_a1, team_c4), (team_a1, team_b3)]\<rparr>)
   \<and> int (appearances team_a1 [(team_b3, team_c4), (team_a1, team_c4), (team_a1, team_b3)]) = 2
   \<and> int (appearances team_b3 [(team_b3, team_c4), (team_a1, team_c4), (team_a1, team_b3)]) = 2
   \<and> int (appearances team_c4 [(team_b3, team_c4), (team_a1, team_c4), (team_a1, team_b3)]) = 2"
proof -
  let ?lg = "league_of [team_a1, team_b3, team_c4]"
  let ?ms = "[(team_b3, team_c4), (team_a1, team_c4), (team_a1, team_b3)]"
  have h1: "distinct (map team_id (teams ?lg))"
    by (simp add: league_of_def team_a1_def team_b3_def team_c4_def)
  have h2: "mset (rev (possible_pairs (teams ?lg))) = mset (possible_pairs (teams ?lg))"
    by simp
  have h3: "generate_matches_for_league rev ?lg 2 = Inr (True, ?lg\<lparr>matches := ?ms\<rparr>)"
    by code_simp
  from scheduler_exact_counts[of ?lg rev 2 "?lg\<lparr>matches := ?ms\<rparr>", OF h1 h2 h3]
  have "\<forall>t\<in>set (teams ?lg). int (appearances t ?ms) = 2" by simp
  then have "int (appearances team_a1 ?ms) = 2 \<and> int (appearances team_b3 ?ms) = 2
     \<and> int (appearances team_c4 ?ms) = 2"
    by (simp add: league_of_def)
  with h1 h2 h3 show ?thesis by simp
qed

text \<open>
  C3. For every league whose teams have pairwise distinct ids, the match list of a
  successful run holds no unordered pair of teams more than once. The candidate list
  holds no unordered pair twice and each of its pairs is in strictly ascending id order;
  the match list is a subsequence of the shuffled candidate list, that is, the search
  takes each candidate at most once, at increasing indices.
\<close>

theorem scheduler_no_repeated_pair:
  assumes "distinct (map team_id (teams lg))"
    and "mset (shuffle (possible_pairs (teams lg))) = mset (possible_pairs (teams lg))"
    and "generate_matches_for_league shuffle lg n = Inr (True, lg')"
  shows "distinct (map unordered (matches lg'))
     \<and> distinct (map unordered (possible_pairs (teams lg)))
     \<and> (\<forall>p\<in>set (possible_pairs (teams lg)). team_id (fst p) < team_id (snd p))
     \<and> subseq (matches lg') (shuffle (possible_pairs (teams lg)))"
proof -
  let ?pp = "possible_pairs (teams lg)"
  from assms(1) have d: "distinct (teams lg)" by (simp add: distinct_map)
  then have dpp: "distinct (map unordered ?pp)"
    by (simp add: possible_pairs_eq pairs_from_distinct)
  from assms(2) have "mset (map unordered (shuffle ?pp)) = mset (map unordered ?pp)"
    by simp
  with dpp have dps: "distinct (map unordered (shuffle ?pp))"
    by (metis mset_eq_imp_distinct_iff)
  from generate_success_shape[OF assms(3)] have sub: "subseq (matches lg') (shuffle ?pp)"
    by simp
  then have "subseq (map unordered (matches lg')) (map unordered (shuffle ?pp))"
    by (rule subseq_map)
  with dps have "distinct (map unordered (matches lg'))" by (rule subseq_distinct[rotated])
  moreover have "\<forall>p\<in>set ?pp. team_id (fst p) < team_id (snd p)"
    using pairs_from_strict[OF assms(1)] by (simp add: possible_pairs_eq)
  ultimately show ?thesis using dpp sub by simp
qed

theorem scheduler_no_repeated_pair_witness:
  "distinct (map team_id (teams (league_of [team_a1, team_a2, team_b3, team_c4])))
   \<and> mset (rev (possible_pairs (teams (league_of [team_a1, team_a2, team_b3, team_c4]))))
       = mset (possible_pairs (teams (league_of [team_a1, team_a2, team_b3, team_c4])))
   \<and> generate_matches_for_league rev (league_of [team_a1, team_a2, team_b3, team_c4]) 1
       = Inr (True, (league_of [team_a1, team_a2, team_b3, team_c4])
            \<lparr>matches := [(team_a2, team_c4), (team_a1, team_b3)]\<rparr>)
   \<and> distinct (map unordered [(team_a2, team_c4), (team_a1, team_b3)])"
proof -
  let ?lg = "league_of [team_a1, team_a2, team_b3, team_c4]"
  let ?ms = "[(team_a2, team_c4), (team_a1, team_b3)]"
  have h1: "distinct (map team_id (teams ?lg))"
    by (simp add: league_of_def team_a1_def team_a2_def team_b3_def team_c4_def)
  have h2: "mset (rev (possible_pairs (teams ?lg))) = mset (possible_pairs (teams ?lg))"
    by simp
  have h3: "generate_matches_for_league rev ?lg 1 = Inr (True, ?lg\<lparr>matches := ?ms\<rparr>)"
    by code_simp
  from scheduler_no_repeated_pair[of ?lg rev 1 "?lg\<lparr>matches := ?ms\<rparr>", OF h1 h2 h3]
  have "distinct (map unordered ?ms)" by simp
  with h1 h2 h3 show ?thesis by simp
qed

text \<open>
  C9. The search terminates. \<open>find_matches_recursive\<close> is a total function, accepted
  with the measure \<open>length ps - pair_idx\<close>, which every recursive call decreases. The
  depth of the recursion is bounded: with more than \<open>length ps - pair_idx\<close> nested calls
  allowed, the depth-limited search returns the result of the search. The candidate
  list of a league of \<open>k\<close> teams has at most \<open>k choose 2\<close> pairs, so one more than that
  many nested calls suffice for the scheduler.
\<close>

theorem search_terminates:
  "(length ps - pair_idx < fuel \<longrightarrow>
      find_matches_fuel fuel ps n lg ms cs pair_idx
        = Some (find_matches_recursive ps n lg ms cs pair_idx))
   \<and> length (possible_pairs ts) \<le> length ts choose 2
   \<and> (mset ps = mset (possible_pairs ts) \<longrightarrow>
        find_matches_fuel (Suc (length ts choose 2)) ps n lg ms cs 0
          = Some (find_matches_recursive ps n lg ms cs 0))"
proof (intro conjI impI)
  show "length (possible_pairs ts) \<le> length ts choose 2"
    by (simp add: possible_pairs_eq pairs_from_length)
  then show "find_matches_fuel (Suc (length ts choose 2)) ps n lg ms cs 0
          = Some (find_matches_recursive ps n lg ms cs 0)"
    if "mset ps = mset (possible_pairs ts)"
    using mset_eq_length[OF that] by (intro find_fuel_enough) simp
qed (rule find_fuel_enough)

theorem search_terminates_witness:
  "find_matches_fuel 2 [(team_a1, team_b3)] 1 (league_of [team_a1, team_b3]) []
       (initial_match_counts [team_a1, team_b3]) 0
     = Some (find_matches_recursive [(team_a1, team_b3)] 1 (league_of [team_a1, team_b3]) []
         (initial_match_counts [team_a1, team_b3]) 0)
   \<and> find_matches_recursive [(team_a1, team_b3)] 1 (league_of [team_a1, team_b3]) []
         (initial_match_counts [team_a1, team_b3]) 0
     = Inr (True, (league_of [team_a1, team_b3])\<lparr>matches := [(team_a1, team_b3)]\<rparr>)
   \<and> length (possible_pairs [team_a1, team_b3]) \<le> length [team_a1, team_b3] choose 2"
proof -
  have "length [(team_a1, team_b3)] - 0 < (2::nat)" by simp
  with search_terminates[of "[(team_a1, team_b3)]" 0 2 1 "league_of [team_a1, team_b3]" "[]"
      "initial_match_counts [team_a1, team_b3]" "[team_a1, team_b3]"]
  have "find_matches_fuel 2 [(team_a1, team_b3)] 1 (league_of [team_a1, team_b3]) []
       (initial_match_counts [team_a1, team_b3]) 0
     = Some (find_matches_recursive [(team_a1, team_b3)] 1 (league_of [team_a1, team_b3]) []
         (initial_match_counts [team_a1, team_b3]) 0)"
    and "length (possible_pairs [team_a1, team_b3]) \<le> length [team_a1, team_b3] choose 2"
    by blast+
  moreover have "find_matches_recursive [(team_a1, team_b3)] 1 (league_of [team_a1, team_b3]) []
         (initial_match_counts [team_a1, team_b3]) 0
     = Inr (True, (league_of [team_a1, team_b3])\<lparr>matches := [(team_a1, team_b3)]\<rparr>)"
    by code_simp
  ultimately show ?thesis by blast
qed

section \<open>The placement step and the placement loop\<close>

lemma available_iff:
  "i \<in> set (available_leagues sizes lgs) \<longleftrightarrow>
     i < length lgs \<and> int (length (teams (lgs ! i))) < sizes ! i"
  by (auto simp: available_leagues_def)

lemma available_empty_iff:
  "available_leagues sizes lgs = [] \<longleftrightarrow>
     (\<forall>i<length lgs. \<not> int (length (teams (lgs ! i))) < sizes ! i)"
  by (auto simp: available_leagues_def filter_empty_conv)

lemma choose_league_None:
  "choose_league r sizes lgs t = None \<longleftrightarrow> available_leagues sizes lgs = []"
  by (simp add: choose_league_def Let_def)

lemma hd_sort_key_least:
  assumes "xs \<noteq> []" and "j \<in> set xs"
  shows "f (hd (sort_key f xs)) \<le> f j"
proof -
  from assms(1) have "sort_key f xs \<noteq> []" by (metis length_0_conv length_sort)
  then obtain y ys where eq: "sort_key f xs = y # ys" by (cases "sort_key f xs") auto
  have "sorted (map f (sort_key f xs))" by simp
  with eq have "\<forall>z\<in>set ys. f y \<le> f z" by simp
  moreover from assms(2) have "j \<in> set (y # ys)" by (metis eq set_sort)
  ultimately show ?thesis by (auto simp: eq)
qed

lemma best_options_nonempty:
  assumes "avail \<noteq> []"
  shows "best_options lgs t (best_leagues lgs t avail) \<noteq> []"
proof -
  let ?best = "best_leagues lgs t avail"
  from assms have "?best \<noteq> []" unfolding best_leagues_def by (metis length_0_conv length_sort)
  then have "hd ?best \<in> set ?best" by simp
  then have "hd ?best \<in> set (best_options lgs t ?best)" by (simp add: best_options_def)
  then show ?thesis by auto
qed

lemma best_options_least:
  assumes "i \<in> set (best_options lgs t (best_leagues lgs t avail))"
  shows "i \<in> set avail
     \<and> (\<forall>j\<in>set avail. same_region_count (lgs ! i) t \<le> same_region_count (lgs ! j) t)"
proof -
  from assms have mem: "i \<in> set avail"
    and eq: "same_region_count (lgs ! i) t
       = same_region_count (lgs ! hd (sort_key (\<lambda>i. same_region_count (lgs ! i) t) avail)) t"
    by (simp_all add: best_options_def best_leagues_def)
  from mem have ne: "avail \<noteq> []" by auto
  show ?thesis
    using mem hd_sort_key_least[OF ne, of _ "\<lambda>i. same_region_count (lgs ! i) t"]
    by (simp add: eq)
qed

lemma choose_league_Some:
  assumes "choose_league r sizes lgs t = Some i"
  shows "i \<in> set (available_leagues sizes lgs)
     \<and> (\<forall>j\<in>set (available_leagues sizes lgs).
           same_region_count (lgs ! i) t \<le> same_region_count (lgs ! j) t)"
proof -
  let ?avail = "available_leagues sizes lgs"
  let ?opts = "best_options lgs t (best_leagues lgs t ?avail)"
  from assms have ne: "?avail \<noteq> []" and i: "i = ?opts ! (r mod length ?opts)"
    by (auto simp: choose_league_def Let_def split: if_splits)
  from best_options_nonempty[OF ne] have "r mod length ?opts < length ?opts" by simp
  with i have "i \<in> set ?opts" by simp
  then show ?thesis by (rule best_options_least)
qed

lemma sum_list_update_int:
  "k < length xs \<Longrightarrow> sum_list (xs[k := x]) = sum_list xs + x - (xs ! k :: int)"
  by (induction xs arbitrary: k) (auto simp: nth_Cons' split: nat.splits)


lemma league_lengths_append_team:
  "i < length lgs \<Longrightarrow>
     league_lengths (append_team lgs i t) = (league_lengths lgs)[i := league_lengths lgs ! i + 1]"
  by (simp add: league_lengths_def append_team_def map_update add.commute)



lemma place_team_SomeD:
  assumes "place_team r sizes lgs t = Some lgs'"
  shows "\<exists>i<length lgs. int (length (teams (lgs ! i))) < sizes ! i \<and> lgs' = append_team lgs i t"
proof -
  from assms obtain i where c: "choose_league r sizes lgs t = Some i"
    and l: "lgs' = append_team lgs i t"
    by (auto simp: place_team_def split: option.splits)
  from choose_league_Some[OF c] l show ?thesis by (auto simp: available_iff)
qed

lemma place_team_None:
  "place_team r sizes lgs t = None \<longleftrightarrow> available_leagues sizes lgs = []"
proof -
  have "place_team r sizes lgs t = None \<longleftrightarrow> choose_league r sizes lgs t = None"
    by (simp add: place_team_def split: option.splits)
  then show ?thesis by (simp only: choose_league_None)
qed

lemma length_append_team: "length (append_team lgs i t) = length lgs"
  by (simp add: append_team_def)

lemma place_teams_failure_state:
  "place_teams rnd k sizes lgs ts = None \<Longrightarrow>
     \<exists>pre t post lgs'. ts = pre @ t # post
       \<and> place_teams rnd k sizes lgs pre = Some lgs'
       \<and> available_leagues sizes lgs' = []"
proof (induction ts arbitrary: k lgs)
  case Nil
  then show ?case by simp
next
  case (Cons t ts)
  show ?case
  proof (cases "place_team (rnd k) sizes lgs t")
    case None
    then have "available_leagues sizes lgs = []" by (simp add: place_team_None)
    then have "t # ts = [] @ t # ts \<and> place_teams rnd k sizes lgs [] = Some lgs
       \<and> available_leagues sizes lgs = []" by simp
    then show ?thesis by blast
  next
    case (Some lgs1)
    with Cons.prems have "place_teams rnd (k + 1) sizes lgs1 ts = None" by simp
    from Cons.IH[OF this] obtain pre u post lgs' where
      "ts = pre @ u # post" "place_teams rnd (k + 1) sizes lgs1 pre = Some lgs'"
      "available_leagues sizes lgs' = []" by blast
    then have "t # ts = (t # pre) @ u # post \<and> place_teams rnd k sizes lgs (t # pre) = Some lgs'
       \<and> available_leagues sizes lgs' = []" using Some by simp
    then show ?thesis by blast
  qed
qed

lemma place_teams_succeeds:
  assumes "length lgs = length sizes"
    and "\<forall>i<length lgs. league_lengths lgs ! i \<le> max 0 (sizes ! i)"
    and "sum_list (league_lengths lgs) + int (length ts) \<le> sum_list (map (max 0) sizes)"
  shows "place_teams rnd k sizes lgs ts \<noteq> None"
  using assms
proof (induction ts arbitrary: k lgs)
  case Nil
  then show ?case by simp
next
  case (Cons t ts)
  have len: "length (league_lengths lgs) = length (map (max 0) sizes)"
    using Cons.prems(1) by (simp add: league_lengths_def)
  have avail: "available_leagues sizes lgs \<noteq> []"
  proof
    assume "available_leagues sizes lgs = []"
    then have full: "\<forall>i<length lgs. sizes ! i \<le> int (length (teams (lgs ! i)))"
      by (auto simp: available_empty_iff not_less)
    have "sum_list (map (max 0) sizes) \<le> sum_list (league_lengths lgs)"
    proof (rule sum_list_mono2)
      show "length (map (max 0) sizes) = length (league_lengths lgs)" using len by simp
      fix i
      show "i < length (map (max 0) sizes) \<longrightarrow> map (max 0) sizes ! i \<le> league_lengths lgs ! i"
        using full Cons.prems(1) by (auto simp: league_lengths_def)
    qed
    with Cons.prems(3) show False by simp
  qed
  then obtain lgs1 where p: "place_team (rnd k) sizes lgs t = Some lgs1"
    by (cases "place_team (rnd k) sizes lgs t") (auto simp: place_team_None)
  from place_team_SomeD[OF p] obtain i where i: "i < length lgs"
    "int (length (teams (lgs ! i))) < sizes ! i" "lgs1 = append_team lgs i t" by blast
  have ll: "league_lengths lgs1 = (league_lengths lgs)[i := league_lengths lgs ! i + 1]"
    using i by (simp add: league_lengths_append_team)
  have li: "league_lengths lgs ! i = int (length (teams (lgs ! i)))"
    using i(1) by (simp add: league_lengths_def)
  have a1: "length lgs1 = length sizes" using i(3) Cons.prems(1) by (simp add: length_append_team)
  have a2: "\<forall>j<length lgs1. league_lengths lgs1 ! j \<le> max 0 (sizes ! j)"
  proof (intro allI impI)
    fix j assume "j < length lgs1"
    then have j: "j < length lgs" using a1 Cons.prems(1) by simp
    show "league_lengths lgs1 ! j \<le> max 0 (sizes ! j)"
    proof (cases "j = i")
      case True
      moreover have "i < length (league_lengths lgs)" using i(1) by (simp add: league_lengths_def)
      ultimately show ?thesis using i(2) li by (simp add: ll)
    next
      case False
      then show ?thesis using Cons.prems(2) j by (simp add: ll)
    qed
  qed
  have a3: "sum_list (league_lengths lgs1) + int (length ts) \<le> sum_list (map (max 0) sizes)"
  proof -
    have "i < length (league_lengths lgs)" using i(1) by (simp add: league_lengths_def)
    then have "sum_list (league_lengths lgs1) = sum_list (league_lengths lgs) + 1"
      by (simp add: ll sum_list_update_int)
    with Cons.prems(3) show ?thesis by simp
  qed
  from Cons.IH[OF a1 a2 a3] p show ?case by simp
qed



lemma initial_leagues:
  "length (map new_league [0 ..< n]) = n"
  "concat (map teams (map new_league [0 ..< n])) = []"
  "i < n \<Longrightarrow> league_lengths (map new_league [0 ..< n]) ! i = 0"
  "sum_list (league_lengths (map new_league [0 ..< n])) = 0"
  by (simp_all add: new_league_def league_lengths_def comp_def)



section \<open>The claims about the League Partitioner\<close>

text \<open>
  C7. At a placement step (with one league per configured size, as throughout the loop)
  the league that receives the current team is the one \<open>choose_league\<close> returns: it is
  not yet full, and its count of already-placed teams of the current team's region is
  least among the leagues that are not yet full. The step changes nothing else: the new
  state is the old one with the team appended to that league.
\<close>

theorem partitioner_places_in_best_league:
  assumes "length lgs = length league_sizes"
    and "place_team r league_sizes lgs t = Some lgs'"
  shows "\<exists>i<length lgs.
           choose_league r league_sizes lgs t = Some i
         \<and> int (length (teams (lgs ! i))) < league_sizes ! i
         \<and> (\<forall>j<length lgs. int (length (teams (lgs ! j))) < league_sizes ! j \<longrightarrow>
               same_region_count (lgs ! i) t \<le> same_region_count (lgs ! j) t)
         \<and> lgs' = lgs[i := (lgs ! i)\<lparr>teams := teams (lgs ! i) @ [t]\<rparr>]"
proof -
  from assms(2) obtain i where c: "choose_league r league_sizes lgs t = Some i"
    and l: "lgs' = append_team lgs i t"
    by (auto simp: place_team_def split: option.splits)
  from choose_league_Some[OF c] show ?thesis
    using c l by (auto simp: available_iff append_team_def)
qed

text \<open>
  League 0 holds a team of region A, league 1 a team of region B, both of size 2: a
  second team of region A goes to league 1.
\<close>

theorem partitioner_places_in_best_league_witness:
  "length [league_of [team_a1], league_of [team_b3]] = length [2, 2 :: int]
   \<and> place_team 0 [2, 2] [league_of [team_a1], league_of [team_b3]] team_a2
       = Some [league_of [team_a1], league_of [team_b3, team_a2]]
   \<and> (\<exists>i<length [league_of [team_a1], league_of [team_b3]].
         choose_league 0 [2, 2] [league_of [team_a1], league_of [team_b3]] team_a2 = Some i
       \<and> int (length (teams ([league_of [team_a1], league_of [team_b3]] ! i))) < [2, 2] ! i
       \<and> (\<forall>j<length [league_of [team_a1], league_of [team_b3]].
             int (length (teams ([league_of [team_a1], league_of [team_b3]] ! j))) < [2, 2] ! j \<longrightarrow>
             same_region_count ([league_of [team_a1], league_of [team_b3]] ! i) team_a2
               \<le> same_region_count ([league_of [team_a1], league_of [team_b3]] ! j) team_a2)
       \<and> [league_of [team_a1], league_of [team_b3, team_a2]]
           = [league_of [team_a1], league_of [team_b3]]
               [i := ([league_of [team_a1], league_of [team_b3]] ! i)
                  \<lparr>teams := teams ([league_of [team_a1], league_of [team_b3]] ! i) @ [team_a2]\<rparr>])"
proof -
  have h1: "length [league_of [team_a1], league_of [team_b3]] = length [2, 2 :: int]" by simp
  have h2: "place_team 0 [2, 2] [league_of [team_a1], league_of [team_b3]] team_a2
       = Some [league_of [team_a1], league_of [team_b3, team_a2]]"
    by code_simp
  from partitioner_places_in_best_league[OF h1 h2] h1 h2 show ?thesis by blast
qed

text \<open>
  C8. A placement step fails exactly when no league has remaining capacity. The
  partitioner returns failure only so: the shuffled teams split into teams that were
  placed, a team \<open>u\<close> still unplaced and the rest, and in the state reached after the
  placed ones no league has remaining capacity. When the league sizes sum to the number
  of teams (and the sample is a permutation of the teams) the partitioner returns
  success.
\<close>

theorem partitioner_failure_only_when_full:
  "(place_team r league_sizes lgs t = None \<longleftrightarrow>
      (\<forall>i<length lgs. \<not> int (length (teams (lgs ! i))) < league_sizes ! i))
   \<and> (divide_into_leagues sample rnd ts league_sizes = None \<longrightarrow>
        (\<exists>pre u post lgs'. sample ts = pre @ u # post
           \<and> place_teams rnd 0 league_sizes (map new_league [0 ..< length league_sizes]) pre
               = Some lgs'
           \<and> (\<forall>i<length lgs'. \<not> int (length (teams (lgs' ! i))) < league_sizes ! i)))
   \<and> (mset (sample ts) = mset ts \<longrightarrow> sum_list league_sizes = int (length ts) \<longrightarrow>
        (\<exists>lgs'. divide_into_leagues sample rnd ts league_sizes = Some lgs'))"
proof (intro conjI impI)
  show "place_team r league_sizes lgs t = None \<longleftrightarrow>
      (\<forall>i<length lgs. \<not> int (length (teams (lgs ! i))) < league_sizes ! i)"
    by (simp only: place_team_None available_empty_iff)
next
  assume "divide_into_leagues sample rnd ts league_sizes = None"
  then have "place_teams rnd 0 league_sizes (map new_league [0 ..< length league_sizes])
      (sample ts) = None"
    by (simp add: divide_into_leagues_def)
  from place_teams_failure_state[OF this]
  show "\<exists>pre u post lgs'. sample ts = pre @ u # post
           \<and> place_teams rnd 0 league_sizes (map new_league [0 ..< length league_sizes]) pre
               = Some lgs'
           \<and> (\<forall>i<length lgs'. \<not> int (length (teams (lgs' ! i))) < league_sizes ! i)"
    by (simp only: available_empty_iff)
next
  assume perm: "mset (sample ts) = mset ts" and total: "sum_list league_sizes = int (length ts)"
  let ?init = "map new_league [0 ..< length league_sizes]"
  have l: "length (sample ts) = length ts" using perm by (rule mset_eq_length)
  have "sum_list league_sizes \<le> sum_list (map (max 0) league_sizes)"
    by (rule sum_list_mono2) auto
  then have "sum_list (league_lengths ?init) + int (length (sample ts))
      \<le> sum_list (map (max 0) league_sizes)"
    using total l by (simp add: initial_leagues)
  moreover have "\<forall>i<length ?init. league_lengths ?init ! i \<le> max 0 (league_sizes ! i)"
    by (simp add: initial_leagues)
  moreover have "length ?init = length league_sizes" by simp
  ultimately have "place_teams rnd 0 league_sizes ?init (sample ts) \<noteq> None"
    by (intro place_teams_succeeds)
  then show "\<exists>lgs'. divide_into_leagues sample rnd ts league_sizes = Some lgs'"
    by (simp add: divide_into_leagues_def)
qed

theorem partitioner_failure_only_when_full_witness:
  "divide_into_leagues rev Suc [team_a1, team_b3] [1] = None
   \<and> (\<exists>pre u post lgs'. rev [team_a1, team_b3] = pre @ u # post
         \<and> place_teams Suc 0 [1] (map new_league [0 ..< length [1 :: int]]) pre = Some lgs'
         \<and> (\<forall>i<length lgs'. \<not> int (length (teams (lgs' ! i))) < [1] ! i))
   \<and> mset (rev [team_a1, team_b3]) = mset [team_a1, team_b3]
   \<and> sum_list [1, 1] = int (length [team_a1, team_b3])
   \<and> (\<exists>lgs'. divide_into_leagues rev Suc [team_a1, team_b3] [1, 1] = Some lgs')"
proof -
  have h1: "divide_into_leagues rev Suc [team_a1, team_b3] [1] = None" by code_simp
  have h2: "mset (rev [team_a1, team_b3]) = mset [team_a1, team_b3]" by simp
  have h3: "sum_list [1, 1] = int (length [team_a1, team_b3])" by simp
  from partitioner_failure_only_when_full[where sample = rev and rnd = Suc
      and ts = "[team_a1, team_b3]" and league_sizes = "[1]"] h1
  have a: "\<exists>pre u post lgs'. rev [team_a1, team_b3] = pre @ u # post
         \<and> place_teams Suc 0 [1] (map new_league [0 ..< length [1 :: int]]) pre = Some lgs'
         \<and> (\<forall>i<length lgs'. \<not> int (length (teams (lgs' ! i))) < [1] ! i)"
    by blast
  from partitioner_failure_only_when_full[where sample = rev and rnd = Suc
      and ts = "[team_a1, team_b3]" and league_sizes = "[1, 1]"] h2 h3
  have b: "\<exists>lgs'. divide_into_leagues rev Suc [team_a1, team_b3] [1, 1] = Some lgs'"
    by blast
  from h1 a h2 h3 b show ?thesis by blast
qed





end
